theory Spec2Isabelle
  imports Main "HOL-Library.AList"
begin

section \<open>mini-builder: a shallow embedding of \<^verbatim>\<open>src/mini-builder.js\<close>\<close>

text \<open>
  The script reads an entry file, collects the \<^verbatim>\<open>import\<close> declarations of every file
  it reaches (\<^verbatim>\<open>createModule\<close>, \<^verbatim>\<open>createDependenceTree\<close>) and prints one text
  (\<^verbatim>\<open>bundle\<close>) that holds the compiled modules and a small loader.  The embedding
  follows the script function by function.  What the script takes from Node and Babel
  (\<^verbatim>\<open>path.join\<close>, \<^verbatim>\<open>path.dirname\<close>, \<^verbatim>\<open>fs.readFileSync\<close>, \<^verbatim>\<open>babylon.parse\<close>,
  \<^verbatim>\<open>babel-traverse\<close>, \<^verbatim>\<open>transformFromAst\<close>, \<^verbatim>\<open>JSON.stringify\<close>) is modelled next to the
  place that calls it.
\<close>

subsection \<open>Node's \<^verbatim>\<open>path\<close> module (POSIX flavour)\<close>

text \<open>
  \<^verbatim>\<open>split_slash\<close> cuts a path at every \<^verbatim>\<open>/\<close>; empty pieces stand for doubled, leading
  or trailing separators.
\<close>

fun split_slash :: "string \<Rightarrow> string list" where
  "split_slash [] = [] # []"
| "split_slash (c # cs) =
     (if c = CHR ''/'' then [] # split_slash cs
      else (case split_slash cs of
              [] \<Rightarrow> [c] # []
            | s # ss \<Rightarrow> (c # s) # ss))"

text \<open>
  \<^verbatim>\<open>normalizeString\<close>: the segments are pushed on \<^verbatim>\<open>res\<close> from left to right; an empty
  segment and \<^verbatim>\<open>.\<close> are dropped; \<^verbatim>\<open>..\<close> removes the last segment of \<^verbatim>\<open>res\<close> unless
  there is none or it is \<^verbatim>\<open>..\<close> itself, in which case \<^verbatim>\<open>..\<close> is kept when
  \<^verbatim>\<open>allowAboveRoot\<close> holds and dropped otherwise.  \<^verbatim>\<open>res\<close> is kept as the list of its
  segments.
\<close>

fun normalizeString :: "string list \<Rightarrow> bool \<Rightarrow> string list \<Rightarrow> string list" where
  "normalizeString [] allowAboveRoot res = res"
| "normalizeString (seg # segs) allowAboveRoot res =
     (if seg = [] \<or> seg = ''.'' then normalizeString segs allowAboveRoot res
      else if seg = ''..'' then
        (if res \<noteq> [] \<and> last res \<noteq> ''..''
         then normalizeString segs allowAboveRoot (butlast res)
         else if allowAboveRoot then normalizeString segs allowAboveRoot (res @ [''..''])
         else normalizeString segs allowAboveRoot res)
      else normalizeString segs allowAboveRoot (res @ [seg]))"

fun join_slash :: "string list \<Rightarrow> string" where
  "join_slash [] = []"
| "join_slash [s] = s"
| "join_slash (s # t # ss) = s @ ''/'' @ join_slash (t # ss)"

definition path_normalize :: "string \<Rightarrow> string" where
  "path_normalize p =
     (if p = [] then ''.''
      else
        let isAbsolute = (hd p = CHR ''/'');
            trailingSeparator = (last p = CHR ''/'');
            res = join_slash (normalizeString (split_slash p) (\<not> isAbsolute) [])
        in if res = [] then (if isAbsolute then ''/'' else if trailingSeparator then ''./'' else ''.'')
           else (if isAbsolute then ''/'' else []) @ res @ (if trailingSeparator then ''/'' else []))"

text \<open>\<^verbatim>\<open>path.join(a, b)\<close>: the non-empty arguments are glued with \<^verbatim>\<open>/\<close> and normalised.\<close>

definition path_join :: "string \<Rightarrow> string \<Rightarrow> string" where
  "path_join a b =
     (let joined = (if a = [] then b else if b = [] then a else a @ ''/'' @ b)
      in if joined = [] then ''.'' else path_normalize joined)"

text \<open>
  \<^verbatim>\<open>path.dirname\<close> scans from the last character down to index 1 for the first \<^verbatim>\<open>/\<close>
  that follows (reading backwards) a character other than \<^verbatim>\<open>/\<close>.
\<close>

fun dirname_end :: "string \<Rightarrow> nat \<Rightarrow> bool \<Rightarrow> nat option" where
  "dirname_end p 0 matchedSlash = None"
| "dirname_end p (Suc i) matchedSlash =
     (if p ! Suc i = CHR ''/''
      then (if \<not> matchedSlash then Some (Suc i) else dirname_end p i matchedSlash)
      else dirname_end p i False)"

definition path_dirname :: "string \<Rightarrow> string" where
  "path_dirname p =
     (if p = [] then ''.''
      else
        let hasRoot = (hd p = CHR ''/'')
        in (case dirname_end p (length p - 1) True of
              None \<Rightarrow> (if hasRoot then ''/'' else ''.'')
            | Some e \<Rightarrow> (if hasRoot \<and> e = 1 then ''//'' else take e p)))"

subsection \<open>Files, syntax trees and \<^verbatim>\<open>createModule\<close>\<close>

text \<open>
  The syntax tree \<^verbatim>\<open>babylon.parse\<close> returns, reduced to the node kinds that matter to
  the visitor: an \<^verbatim>\<open>ImportDeclaration\<close> carries \<^verbatim>\<open>node.source.value\<close>, a
  \<^verbatim>\<open>CallExpression\<close> its callee and arguments (so that \<^verbatim>\<open>require('./x')\<close> is
  \<^verbatim>\<open>CallExpression (Identifier ''require'') [StringLiteral ''./x'']\<close>), and \<^verbatim>\<open>Node\<close> is any
  other node with its children in source order.
\<close>

datatype node =
    ImportDeclaration string
  | CallExpression node "node list"
  | Identifier string
  | StringLiteral string
  | Node "node list"

text \<open>
  \<^verbatim>\<open>traverse(ast, { ImportDeclaration: ({node}) => dependencies.push(node.source.value) })\<close>:
  a depth-first walk in source order that calls the one visitor on entering an import
  declaration.  The second argument is the array \<^verbatim>\<open>dependencies\<close> being filled.
\<close>

fun traverse :: "node \<Rightarrow> string list \<Rightarrow> string list"
  and traverse_nodes :: "node list \<Rightarrow> string list \<Rightarrow> string list" where
  "traverse (ImportDeclaration source) dependencies = dependencies @ [source]"
| "traverse (CallExpression callee arguments) dependencies =
     traverse_nodes arguments (traverse callee dependencies)"
| "traverse (Identifier name) dependencies = dependencies"
| "traverse (StringLiteral v) dependencies = dependencies"
| "traverse (Node children) dependencies = traverse_nodes children dependencies"
| "traverse_nodes [] dependencies = dependencies"
| "traverse_nodes (n # ns) dependencies = traverse_nodes ns (traverse n dependencies)"

text \<open>
  A file is represented by what Babel makes of its text: \<^verbatim>\<open>babylon.parse\<close> throws, or it
  returns a tree and \<^verbatim>\<open>transformFromAst\<close> throws, or both succeed and give the tree and
  the compiled code.  \<^verbatim>\<open>fs.readFileSync\<close> throws on a path that is not in the map.
\<close>

datatype babel = ParseFails | TransformFails node | Compiled node string

type_synonym files = "string \<Rightarrow> babel option"

text \<open>
  The exceptions, under the names of the specification's taxonomy: \<^verbatim>\<open>SourceReadError\<close>
  is what \<^verbatim>\<open>fs.readFileSync\<close> throws, \<^verbatim>\<open>TransformError\<close> what Babel throws (both carry
  the path given to \<^verbatim>\<open>createModule\<close>), \<^verbatim>\<open>TypeError\<close> is the JavaScript type error.  No
  statement of the script raises \<^verbatim>\<open>ModuleResolutionError\<close>; the constructor is there so
  that statements about it can be written.
\<close>

datatype error =
    SourceReadError string
  | TransformError string
  | ModuleResolutionError string
  | TypeError

text \<open>
  The module object.  \<^verbatim>\<open>dependenceMapping\<close> is \<^verbatim>\<open>undefined\<close> (\<open>None\<close>) until the loop of
  \<^verbatim>\<open>createDependenceTree\<close> sets it; it is an object with string keys, kept as an
  association list in order of first assignment.
\<close>

record module =
  module_id :: nat
  code :: string
  dependencies :: "string list"
  path :: string
  dependenceMapping :: "(string \<times> nat) list option"

text \<open>
  \<^verbatim>\<open>createModule(path)\<close>, with the global counter \<^verbatim>\<open>identifier\<close> passed in and returned.
\<close>

definition createModule :: "files \<Rightarrow> string \<Rightarrow> nat \<Rightarrow> error + (module \<times> nat)" where
  "createModule fs p identifier =
     (case fs p of
        None \<Rightarrow> Inl (SourceReadError p)
      | Some ParseFails \<Rightarrow> Inl (TransformError p)
      | Some (TransformFails ast) \<Rightarrow> Inl (TransformError p)
      | Some (Compiled ast c) \<Rightarrow>
          Inr (\<lparr>module_id = identifier, code = c, dependencies = traverse ast [],
                path = p, dependenceMapping = None\<rparr>,
               identifier + 1))"

subsection \<open>\<^verbatim>\<open>createDependenceTree\<close>\<close>

text \<open>
  \<^verbatim>\<open>obj[k] = v\<close> on a plain object with a number \<open>v\<close>: a new key goes to the end, a
  key that is there keeps its place and takes the new value.  The key \<^verbatim>\<open>__proto__\<close> is
  the accessor inherited from \<^verbatim>\<open>Object.prototype\<close>, whose setter ignores a number, so
  that assignment leaves the object as it is.
\<close>

definition js_put :: "string \<Rightarrow> nat \<Rightarrow> (string \<times> nat) list \<Rightarrow> (string \<times> nat) list" where
  "js_put k v obj = (if k = ''__proto__'' then obj else AList.update k v obj)"

text \<open>
  \<^verbatim>\<open>module.dependenceMapping[dependencePath] = dependenceModule.id\<close> on the module at
  index \<open>i\<close> of \<^verbatim>\<open>moduleList\<close>; assigning to a property of \<^verbatim>\<open>undefined\<close> is a type error.
\<close>

definition set_dependenceMapping ::
  "nat \<Rightarrow> string \<Rightarrow> nat \<Rightarrow> module list \<Rightarrow> error + module list" where
  "set_dependenceMapping i dependencePath v moduleList =
     (case dependenceMapping (moduleList ! i) of
        None \<Rightarrow> Inl TypeError
      | Some mapping \<Rightarrow>
          Inr (moduleList[i := (moduleList ! i)
                 \<lparr>dependenceMapping := Some (js_put dependencePath v mapping)\<rparr>]))"

text \<open>
  The body of \<^verbatim>\<open>module.dependencies.forEach\<close>, run over the specifiers in order.  The
  state is \<^verbatim>\<open>moduleList\<close> and the counter; \<open>i\<close> is the index of \<^verbatim>\<open>module\<close> in the list.
\<close>

fun forEach_dependencies ::
  "files \<Rightarrow> nat \<Rightarrow> string \<Rightarrow> string list \<Rightarrow> module list \<times> nat \<Rightarrow> error + (module list \<times> nat)" where
  "forEach_dependencies fs i dirname [] st = Inr st"
| "forEach_dependencies fs i dirname (dependencePath # rest) (moduleList, identifier) =
     (let absolutePath = path_join dirname dependencePath
      in case createModule fs absolutePath identifier of
           Inl e \<Rightarrow> Inl e
         | Inr (dependenceModule, identifier') \<Rightarrow>
             (case set_dependenceMapping i dependencePath (module_id dependenceModule) moduleList of
                Inl e \<Rightarrow> Inl e
              | Inr moduleList' \<Rightarrow>
                  forEach_dependencies fs i dirname rest
                    (moduleList' @ [dependenceModule], identifier')))"

text \<open>One turn of \<^verbatim>\<open>for (const module of moduleList)\<close>, for the module at index \<open>i\<close>.\<close>

definition loop_body :: "files \<Rightarrow> nat \<Rightarrow> module list \<times> nat \<Rightarrow> error + (module list \<times> nat)" where
  "loop_body fs i st =
     (let moduleList = fst st;
          m = moduleList ! i;
          moduleList0 = moduleList[i := m\<lparr>dependenceMapping := Some []\<rparr>];
          dirname = path_dirname (path m)
      in forEach_dependencies fs i dirname (dependencies m) (moduleList0, snd st))"

text \<open>
  The \<^verbatim>\<open>for ... of\<close> loop: the array iterator compares its index with the current
  length before every turn, so modules pushed during the loop are visited too.  The loop
  need not end; \<open>None\<close> is the run that never leaves it.
\<close>

partial_function (option) for_of ::
  "files \<Rightarrow> nat \<Rightarrow> module list \<times> nat \<Rightarrow> (error + (module list \<times> nat)) option" where
  "for_of fs i st =
     (if i < length (fst st)
      then (case loop_body fs i st of
              Inl e \<Rightarrow> Some (Inl e)
            | Inr st' \<Rightarrow> for_of fs (Suc i) st')
      else Some (Inr st))"

declare for_of.simps [code]

text \<open>
  \<^verbatim>\<open>createDependenceTree(entry)\<close>, started with the counter at \<open>identifier\<close>; the result is
  \<^verbatim>\<open>moduleList\<close> and the counter as the call leaves it.
\<close>

definition createDependenceTree ::
  "files \<Rightarrow> string \<Rightarrow> nat \<Rightarrow> (error + (module list \<times> nat)) option" where
  "createDependenceTree fs entry identifier =
     (case createModule fs entry identifier of
        Inl e \<Rightarrow> Some (Inl e)
      | Inr (entryModule, identifier') \<Rightarrow> for_of fs 0 ([entryModule], identifier'))"

subsection \<open>\<^verbatim>\<open>bundle\<close>\<close>

text \<open>A non-negative integer in a template literal: its decimal digits.\<close>

function show_nat :: "nat \<Rightarrow> string" where
  "show_nat n =
     (if n < 10 then [char_of (48 + n)]
      else show_nat (n div 10) @ [char_of (48 + n mod 10)])"
  by pat_completeness auto
termination
  by (relation "measure (\<lambda>n. n)") auto

text \<open>
  \<^verbatim>\<open>JSON.stringify\<close> of an object from strings to numbers.  The keys come in the
  order of the object's own property keys: first the array indices (the canonical
  decimal numerals below \<open>2^32 - 1\<close>) in ascending order, then the other keys in order
  of creation.
  A key is quoted as \<^verbatim>\<open>QuoteJSONString\<close> does it.
\<close>

definition decimal_value :: "string \<Rightarrow> int" where
  "decimal_value s = foldl (\<lambda>n c. 10 * n + (of_char c - 48)) 0 s"

definition is_array_index :: "string \<Rightarrow> bool" where
  "is_array_index s \<longleftrightarrow>
     s \<noteq> [] \<and> (\<forall>c \<in> set s. 48 \<le> (of_char c :: nat) \<and> (of_char c :: nat) \<le> 57)
     \<and> (s = ''0'' \<or> hd s \<noteq> CHR ''0'')
     \<and> decimal_value s < 4294967295"

fun insert_index :: "string \<times> nat \<Rightarrow> (string \<times> nat) list \<Rightarrow> (string \<times> nat) list" where
  "insert_index kv [] = [kv]"
| "insert_index kv (kv' # rest) =
     (if decimal_value (fst kv) \<le> decimal_value (fst kv') then kv # kv' # rest
      else kv' # insert_index kv rest)"

definition own_properties :: "(string \<times> nat) list \<Rightarrow> (string \<times> nat) list" where
  "own_properties obj =
     foldr insert_index (filter (\<lambda>kv. is_array_index (fst kv)) obj) []
     @ filter (\<lambda>kv. \<not> is_array_index (fst kv)) obj"

definition hex_digit :: "nat \<Rightarrow> char" where
  "hex_digit d = (if d < 10 then char_of (48 + d) else char_of (87 + d))"

definition quote_char :: "char \<Rightarrow> string" where
  "quote_char c =
     (if c = CHR 0x22 then [CHR 0x5C, CHR 0x22]
      else if c = CHR 0x5C then [CHR 0x5C, CHR 0x5C]
      else if c = CHR 0x08 then [CHR 0x5C, CHR ''b'']
      else if c = CHR 0x0C then [CHR 0x5C, CHR ''f'']
      else if c = CHR 0x0A then [CHR 0x5C, CHR ''n'']
      else if c = CHR 0x0D then [CHR 0x5C, CHR ''r'']
      else if c = CHR 0x09 then [CHR 0x5C, CHR ''t'']
      else if (of_char c :: nat) < 32
        then [CHR 0x5C, CHR ''u'', CHR ''0'', CHR ''0'',
              hex_digit (of_char c div 16), hex_digit (of_char c mod 16)]
      else [c])"

definition quote_string :: "string \<Rightarrow> string" where
  "quote_string s = [CHR 0x22] @ concat (map quote_char s) @ [CHR 0x22]"

fun join_comma :: "string list \<Rightarrow> string" where
  "join_comma [] = []"
| "join_comma [s] = s"
| "join_comma (s # t # ss) = s @ '','' @ join_comma (t # ss)"

definition JSON_stringify :: "(string \<times> nat) list option \<Rightarrow> string" where
  "JSON_stringify v =
     (case v of
        None \<Rightarrow> ''undefined''
      | Some obj \<Rightarrow>
          ''{'' @ join_comma (map (\<lambda>kv. quote_string (fst kv) @ '':'' @ show_nat (snd kv))
                                (own_properties obj)) @ ''}'')"

text \<open>The text one turn of \<^verbatim>\<open>dependenceTree.forEach\<close> appends to \<^verbatim>\<open>modules\<close>.\<close>

definition module_entry :: "module \<Rightarrow> string" where
  "module_entry dependence =
     show_nat (module_id dependence) @ '': [\<newline>'' @
     ''            function(require, module, exports) {\<newline>'' @
     ''                '' @ code dependence @ ''\<newline>'' @
     ''            },\<newline>'' @
     ''            '' @ JSON_stringify (dependenceMapping dependence) @ ''\<newline>'' @
     ''        ],''"

fun bundle_forEach :: "module list \<Rightarrow> string \<Rightarrow> string" where
  "bundle_forEach [] modules = modules"
| "bundle_forEach (dependence # rest) modules =
     bundle_forEach rest (modules @ module_entry dependence)"

text \<open>
  The two fixed parts of the template literal \<^verbatim>\<open>result\<close>, around \<^verbatim>\<open>${modules}\<close>, and
  \<^verbatim>\<open>bundle(dependenceTree)\<close> (named \<open>bundle_text\<close>, as \<open>bundle\<close> is a keyword here).
\<close>

definition loader_head :: string where
  "loader_head =
     ''\<newline>'' @
     ''    (function(modules) {\<newline>'' @
     ''      function require(id) {\<newline>'' @
     ''        const [fn, dependenceMapping] = modules[id];\<newline>'' @
     ''\<newline>'' @
     ''        function requireModule(name) {\<newline>'' @
     ''          return require(dependenceMapping[name]);\<newline>'' @
     ''        }\<newline>'' @
     ''\<newline>'' @
     ''        const module = { exports : {} };\<newline>'' @
     ''\<newline>'' @
     ''        fn(requireModule, module, module.exports);\<newline>'' @
     ''\<newline>'' @
     ''        return module.exports;\<newline>'' @
     ''      }\<newline>'' @
     ''\<newline>'' @
     ''      require(0);\<newline>'' @
     ''    })({''"

definition loader_tail :: string where
  "loader_tail = ''})\<newline>  ''"

definition bundle_text :: "module list \<Rightarrow> string" where
  "bundle_text dependenceTree =
     (let modules = bundle_forEach dependenceTree []
      in loader_head @ modules @ loader_tail)"

text \<open>
  The script itself: build the graph of \<^verbatim>\<open>./example/entry.js\<close> with the counter at 0
  and print the bundle.  \<open>Some (Inr text)\<close> is the printed text, \<open>Some (Inl e)\<close> the
  uncaught exception, \<open>None\<close> the run that does not end.
\<close>

definition main :: "files \<Rightarrow> (error + string) option" where
  "main fs =
     (case createDependenceTree fs ''./example/entry.js'' 0 of
        None \<Rightarrow> None
      | Some (Inl e) \<Rightarrow> Some (Inl e)
      | Some (Inr (graph, identifier)) \<Rightarrow> Some (Inr (bundle_text graph)))"

subsection \<open>The loader inside the bundle\<close>

text \<open>
  The argument of the generated function is an object from ids to pairs of a function
  \<^verbatim>\<open>fn\<close> and the module's \<^verbatim>\<open>dependenceMapping\<close>.  The compiled code inside \<^verbatim>\<open>fn\<close> is
  opaque to the script; what the loader can observe of it is the sequence of its calls
  to \<^verbatim>\<open>require\<close> (the local \<^verbatim>\<open>requireModule\<close>) and its assignments to \<^verbatim>\<open>exports\<close>, so
  a function body is a list of these.
\<close>

datatype action = Require string | Export string string

type_synonym modules = "nat \<Rightarrow> (action list \<times> (string \<times> nat) list) option"

text \<open>
  \<^verbatim>\<open>require(id)\<close> and the call \<^verbatim>\<open>fn(requireModule, module, module.exports)\<close>.  The argument
  of \<^verbatim>\<open>require\<close> is a number or, as \<open>None\<close>, what \<^verbatim>\<open>dependenceMapping[name]\<close> gives for a
  name that is no key of its own (\<^verbatim>\<open>undefined\<close>, or a member of \<^verbatim>\<open>Object.prototype\<close>);
  \<^verbatim>\<open>modules[id]\<close> is then \<^verbatim>\<open>undefined\<close>, and destructuring it is a type error.  The trace
  lists the ids whose function was called, in order of the calls.  The first argument
  bounds the nesting of \<^verbatim>\<open>require\<close> calls; \<open>None\<close> is a run that needs deeper nesting.
\<close>

fun require ::
    "nat \<Rightarrow> modules \<Rightarrow> nat option \<Rightarrow> nat list
       \<Rightarrow> (error + ((string \<times> string) list \<times> nat list)) option"
  and call_fn ::
    "nat \<Rightarrow> modules \<Rightarrow> (string \<times> nat) list \<Rightarrow> action list \<Rightarrow> (string \<times> string) list
       \<Rightarrow> nat list \<Rightarrow> (error + ((string \<times> string) list \<times> nat list)) option" where
  "require 0 modules ident trace = None"
| "require (Suc depth) modules ident trace =
     (case ident of
        None \<Rightarrow> Some (Inl TypeError)
      | Some i \<Rightarrow>
          (case modules i of
             None \<Rightarrow> Some (Inl TypeError)
           | Some (fn, mapping) \<Rightarrow>
               call_fn depth modules mapping fn [] (trace @ [i])))"
| "call_fn depth modules mapping [] exports trace = Some (Inr (exports, trace))"
| "call_fn depth modules mapping (Require name # rest) exports trace =
     (case require depth modules (map_of mapping name) trace of
        None \<Rightarrow> None
      | Some (Inl e) \<Rightarrow> Some (Inl e)
      | Some (Inr (required, trace')) \<Rightarrow>
          call_fn depth modules mapping rest exports trace')"
| "call_fn depth modules mapping (Export k v # rest) exports trace =
     call_fn depth modules mapping rest (AList.update k v exports) trace"

text \<open>
  Running the bundle: the generated function calls \<^verbatim>\<open>require(0)\<close> as a statement and has
  no \<^verbatim>\<open>return\<close>, so the value of the whole text is \<^verbatim>\<open>undefined\<close>, written \<open>None\<close> here.
\<close>

definition run_bundle ::
  "nat \<Rightarrow> modules \<Rightarrow> (error + ((string \<times> string) list option \<times> nat list)) option" where
  "run_bundle depth modules =
     (case require depth modules (Some 0) [] of
        None \<Rightarrow> None
      | Some (Inl e) \<Rightarrow> Some (Inl e)
      | Some (Inr (exports, trace)) \<Rightarrow> Some (Inr (None, trace)))"

subsection \<open>Notions used in the statements\<close>

text \<open>
  \<open>compiles fs p\<close>: the file at \<open>p\<close> can be read, parsed and transformed, so that
  \<^verbatim>\<open>createModule\<close> returns for it.  \<open>loaded fs m\<close>: the module object \<open>m\<close> is what
  \<^verbatim>\<open>createModule\<close> makes of the file at its path.
\<close>

definition compiles :: "files \<Rightarrow> string \<Rightarrow> bool" where
  "compiles fs p \<longleftrightarrow> (case fs p of Some (Compiled ast c) \<Rightarrow> True | _ \<Rightarrow> False)"

definition loaded :: "files \<Rightarrow> module \<Rightarrow> bool" where
  "loaded fs m \<longleftrightarrow>
     (\<exists>ast c. fs (path m) = Some (Compiled ast c) \<and> code m = c \<and> dependencies m = traverse ast [])"

text \<open>
  \<open>resolved m\<close>: the paths \<^verbatim>\<open>createModule\<close> is called with for the specifiers of \<open>m\<close>,
  in the order of the specifiers.
\<close>

definition resolved :: "module \<Rightarrow> string list" where
  "resolved m = map (path_join (path_dirname (path m))) (dependencies m)"

text \<open>
  \<open>first_child ms k\<close>: one more than the number of specifiers of the modules before
  index \<open>k\<close>; this is the index at which the module of the first specifier of
  \<open>ms ! k\<close> is pushed.
\<close>

definition first_child :: "module list \<Rightarrow> nat \<Rightarrow> nat" where
  "first_child ms k = 1 + sum_list (map (\<lambda>m. length (dependencies m)) (take k ms))"

text \<open>
  \<open>assignments obj ds v\<close>: the object after \<^verbatim>\<open>obj[d] = id\<close> for the specifiers \<open>ds\<close> from
  left to right, with the ids \<open>v, v + 1, \<dots>\<close>.
\<close>

definition assignments :: "(string \<times> nat) list \<Rightarrow> string list \<Rightarrow> nat \<Rightarrow> (string \<times> nat) list" where
  "assignments obj ds v = foldl (\<lambda>obj dv. js_put (fst dv) (snd dv) obj) obj (zip ds [v ..< v + length ds])"

text \<open>
  The invariant of the loop of \<^verbatim>\<open>createDependenceTree\<close> before the turn for index \<open>i\<close>,
  for a call started with the counter at \<open>n\<close>.
\<close>

definition graph_inv :: "files \<Rightarrow> string \<Rightarrow> nat \<Rightarrow> nat \<Rightarrow> module list \<times> nat \<Rightarrow> bool" where
  "graph_inv fs entry n i st \<longleftrightarrow>
     i \<le> length (fst st) \<and> snd st = n + length (fst st)
     \<and> map module_id (fst st) = [n ..< n + length (fst st)]
     \<and> map path (fst st) = entry # concat (map resolved (take i (fst st)))
     \<and> (\<forall>m \<in> set (fst st). loaded fs m)
     \<and> (\<forall>k<i. k < first_child (fst st) k \<and>
            dependenceMapping (fst st ! k) =
              Some (assignments [] (dependencies (fst st ! k)) (n + first_child (fst st) k)))
     \<and> (\<forall>k. i \<le> k \<and> k < length (fst st) \<longrightarrow> dependenceMapping (fst st ! k) = None)"

text \<open>The object in \<^verbatim>\<open>dependenceMapping\<close>, empty while the field is \<^verbatim>\<open>undefined\<close>.\<close>

definition mapping_of :: "module \<Rightarrow> (string \<times> nat) list" where
  "mapping_of m = (case dependenceMapping m of None \<Rightarrow> [] | Some obj \<Rightarrow> obj)"


text \<open>
  \<open>import_edge fs p q\<close>: the file at \<open>p\<close> compiles and one of its import declarations,
  joined to the directory of \<open>p\<close>, is \<open>q\<close>.  Its reflexive transitive closure from the
  entry path gives the paths the loop can reach.
\<close>

definition import_edge :: "files \<Rightarrow> string \<Rightarrow> string \<Rightarrow> bool" where
  "import_edge fs p q \<longleftrightarrow>
     (case fs p of
        Some (Compiled ast c) \<Rightarrow> q \<in> set (map (path_join (path_dirname p)) (traverse ast []))
      | _ \<Rightarrow> False)"


subsection \<open>Example inputs\<close>

text \<open>An entry file that imports one file.\<close>

definition pair_fs :: files where
  "pair_fs = map_of
     [(''./example/entry.js'', Compiled (Node [ImportDeclaration ''./a.js'']) ''E''),
      (''example/a.js'', Compiled (Node []) ''A'')]"

definition pair_graph :: "nat \<Rightarrow> module list" where
  "pair_graph n =
     [\<lparr>module_id = n, code = ''E'', dependencies = [''./a.js''],
       path = ''./example/entry.js'', dependenceMapping = Some [(''./a.js'', n + 1)]\<rparr>,
      \<lparr>module_id = n + 1, code = ''A'', dependencies = [],
       path = ''example/a.js'', dependenceMapping = Some []\<rparr>]"

text \<open>
  A diamond: the entry imports \<^verbatim>\<open>./b.js\<close> and \<^verbatim>\<open>./c.js\<close>, and both import \<^verbatim>\<open>./d.js\<close>;
  \<open>diamond_graph\<close> is the list \<^verbatim>\<open>createDependenceTree\<close> returns for it.
\<close>

definition diamond_fs :: files where
  "diamond_fs = map_of
     [(''./example/entry.js'', Compiled (Node [ImportDeclaration ''./b.js'', ImportDeclaration ''./c.js'']) ''E''),
      (''example/b.js'', Compiled (Node [ImportDeclaration ''./d.js'']) ''B''),
      (''example/c.js'', Compiled (Node [ImportDeclaration ''./d.js'']) ''C''),
      (''example/d.js'', Compiled (Node []) ''D'')]"

definition diamond_graph :: "module list" where
  "diamond_graph =
     [\<lparr>module_id = 0, code = ''E'', dependencies = [''./b.js'', ''./c.js''],
       path = ''./example/entry.js'',
       dependenceMapping = Some [(''./b.js'', 1), (''./c.js'', 2)]\<rparr>,
      \<lparr>module_id = 1, code = ''B'', dependencies = [''./d.js''],
       path = ''example/b.js'', dependenceMapping = Some [(''./d.js'', 3)]\<rparr>,
      \<lparr>module_id = 2, code = ''C'', dependencies = [''./d.js''],
       path = ''example/c.js'', dependenceMapping = Some [(''./d.js'', 4)]\<rparr>,
      \<lparr>module_id = 3, code = ''D'', dependencies = [],
       path = ''example/d.js'', dependenceMapping = Some []\<rparr>,
      \<lparr>module_id = 4, code = ''D'', dependencies = [],
       path = ''example/d.js'', dependenceMapping = Some []\<rparr>]"

text \<open>The entry imports \<^verbatim>\<open>./x\<close>; there is a file \<^verbatim>\<open>x.js\<close> next to it and no file \<^verbatim>\<open>x\<close>.\<close>

definition fallback_fs :: files where
  "fallback_fs = map_of
     [(''./example/entry.js'', Compiled (Node [ImportDeclaration ''./x'']) ''E''),
      (''example/x.js'', Compiled (Node []) ''X'')]"



text \<open>
  A table for the loader: the function of module 0 calls \<^verbatim>\<open>require('./d.js')\<close> twice; the
  function of module 1 sets one export.
\<close>

definition twice_modules :: modules where
  "twice_modules = map_of
     [(0, ([Require ''./d.js'', Require ''./d.js''], [(''./d.js'', 1)])),
      (1, ([Export ''loaded'' ''yes''], []))]"

text \<open>A table with one module, whose function sets one export.\<close>

definition export_modules :: modules where
  "export_modules = map_of [(0, ([Export ''answer'' ''42''], []))]"


text \<open>A cycle: the entry imports \<^verbatim>\<open>./a.js\<close>, which imports \<^verbatim>\<open>./b.js\<close>, which imports \<^verbatim>\<open>./a.js\<close>.\<close>

definition cycle_fs :: files where
  "cycle_fs = map_of
     [(''./example/entry.js'', Compiled (Node [ImportDeclaration ''./a.js'']) ''E''),
      (''example/a.js'', Compiled (Node [ImportDeclaration ''./b.js'']) ''A''),
      (''example/b.js'', Compiled (Node [ImportDeclaration ''./a.js'']) ''B'')]"

text \<open>
  The table for an entry whose code calls \<^verbatim>\<open>require('./math.js')\<close> and whose object has no
  key: the name was not imported.
\<close>

definition math_modules :: modules where
  "math_modules = map_of [(0, ([Require ''./math.js''], []))]"

section \<open>The loop of \<^verbatim>\<open>createDependenceTree\<close>\<close>

lemma createModule_Inr:
  "createModule fs p v = Inr (m, v') \<longleftrightarrow>
     (\<exists>ast c. fs p = Some (Compiled ast c) \<and> v' = v + 1 \<and>
        m = \<lparr>module_id = v, code = c, dependencies = traverse ast [], path = p, dependenceMapping = None\<rparr>)"
  by (auto simp: createModule_def split: option.splits babel.splits)

lemma createModule_Inr_props:
  assumes "createModule fs p v = Inr (m, v')"
  shows "v' = Suc v" "module_id m = v" "path m = p" "dependenceMapping m = None" "loaded fs m"
  using assms by (auto simp: createModule_Inr loaded_def)

lemma createModule_Inl:
  "createModule fs p v = Inl e \<longleftrightarrow>
     \<not> compiles fs p \<and> e = (if fs p = None then SourceReadError p else TransformError p)"
  by (auto simp: createModule_def compiles_def split: option.splits babel.splits)

lemma assignments_Cons:
  "assignments obj (d # ds) v = assignments (js_put d v obj) ds (Suc v)"
  by (simp add: assignments_def upt_conv_Cons del: upt_Suc)

lemma forEach_Inr:
  assumes "forEach_dependencies fs i dir ds (ms, n) = Inr (ms', n')"
    and "i < length ms" and "dependenceMapping (ms ! i) = Some obj"
  shows "\<exists>news. ms' = ms[i := (ms ! i)\<lparr>dependenceMapping := Some (assignments obj ds n)\<rparr>] @ news
           \<and> n' = n + length ds
           \<and> map module_id news = [n ..< n + length ds]
           \<and> map path news = map (path_join dir) ds
           \<and> (\<forall>m \<in> set news. dependenceMapping m = None \<and> loaded fs m)"
  using assms
proof (induction ds arbitrary: ms n obj)
  case Nil
  have "(ms ! i)\<lparr>dependenceMapping := Some obj\<rparr> = ms ! i"
    using Nil.prems(3) by (cases "ms ! i") simp
  moreover from Nil have "ms' = ms" "n' = n" by simp_all
  ultimately show ?case by (simp add: assignments_def)
next
  case (Cons d ds)
  from Cons.prems(1) obtain dm n1 where cm: "createModule fs (path_join dir d) n = Inr (dm, n1)"
    by (auto split: sum.splits)
  note p = createModule_Inr_props[OF cm]
  let ?ms1 = "ms[i := (ms ! i)\<lparr>dependenceMapping := Some (js_put d n obj)\<rparr>]"
  have sm: "set_dependenceMapping i d (module_id dm) ms = Inr ?ms1"
    using Cons.prems(3) p by (simp add: set_dependenceMapping_def)
  have rec: "forEach_dependencies fs i dir ds (?ms1 @ [dm], Suc n) = Inr (ms', n')"
    using Cons.prems(1) cm sm p by simp
  have i1: "i < length (?ms1 @ [dm])" using Cons.prems(2) by simp
  have m1: "dependenceMapping ((?ms1 @ [dm]) ! i) = Some (js_put d n obj)"
    using Cons.prems(2) by (simp add: nth_append)
  from Cons.IH[OF rec i1 m1] obtain news where
    n1: "ms' = (?ms1 @ [dm])[i := ((?ms1 @ [dm]) ! i)\<lparr>dependenceMapping := Some (assignments (js_put d n obj) ds (Suc n))\<rparr>] @ news"
    and n2: "n' = Suc n + length ds"
    and n3: "map module_id news = [Suc n ..< Suc n + length ds]"
    and n4: "map path news = map (path_join dir) ds"
    and n5: "\<forall>m \<in> set news. dependenceMapping m = None \<and> loaded fs m"
    by blast
  have "ms' = ms[i := (ms ! i)\<lparr>dependenceMapping := Some (assignments obj (d # ds) n)\<rparr>] @ (dm # news)"
    using n1 Cons.prems(2) by (simp add: nth_append list_update_append assignments_Cons)
  moreover have "map module_id (dm # news) = [n ..< n + length (d # ds)]"
    using n3 p by (simp add: upt_conv_Cons del: upt_Suc)
  moreover have "map path (dm # news) = map (path_join dir) (d # ds)"
    using n4 p by simp
  moreover have "\<forall>m \<in> set (dm # news). dependenceMapping m = None \<and> loaded fs m"
    using n5 p by simp
  ultimately show ?case using n2 by (intro exI[of _ "dm # news"]) simp
qed

lemma forEach_Inl:
  assumes "forEach_dependencies fs i dir ds (ms, n) = Inl e"
    and "i < length ms" and "dependenceMapping (ms ! i) \<noteq> None"
  shows "\<exists>d \<in> set ds. \<not> compiles fs (path_join dir d) \<and>
           e = (if fs (path_join dir d) = None then SourceReadError (path_join dir d)
                else TransformError (path_join dir d))"
  using assms
proof (induction ds arbitrary: ms n)
  case Nil
  then show ?case by simp
next
  case (Cons d ds)
  show ?case
  proof (cases "createModule fs (path_join dir d) n")
    case (Inl e')
    with Cons.prems(1) have "e' = e" by simp
    with Inl show ?thesis by (auto simp: createModule_Inl)
  next
    case (Inr r)
    obtain dm n1 where r: "r = (dm, n1)" by (cases r)
    from Cons.prems(3) obtain obj where obj: "dependenceMapping (ms ! i) = Some obj" by auto
    let ?ms1 = "ms[i := (ms ! i)\<lparr>dependenceMapping := Some (js_put d (module_id dm) obj)\<rparr>]"
    have sm: "set_dependenceMapping i d (module_id dm) ms = Inr ?ms1"
      using obj by (simp add: set_dependenceMapping_def)
    have rec: "forEach_dependencies fs i dir ds (?ms1 @ [dm], n1) = Inl e"
      using Cons.prems(1) Inr r sm by simp
    have "\<exists>d \<in> set ds. \<not> compiles fs (path_join dir d) \<and>
           e = (if fs (path_join dir d) = None then SourceReadError (path_join dir d)
                else TransformError (path_join dir d))"
      by (rule Cons.IH[OF rec]) (use Cons.prems(2) in \<open>simp_all add: nth_append\<close>)
    then show ?thesis by auto
  qed
qed

lemma loop_body_Inr:
  assumes "loop_body fs i (ms, ident) = Inr st1" and "i < length ms"
  shows "\<exists>news. st1 = (ms[i := (ms ! i)\<lparr>dependenceMapping :=
                           Some (assignments [] (dependencies (ms ! i)) ident)\<rparr>] @ news,
                       ident + length (dependencies (ms ! i)))
           \<and> map module_id news = [ident ..< ident + length (dependencies (ms ! i))]
           \<and> map path news = resolved (ms ! i)
           \<and> (\<forall>m \<in> set news. dependenceMapping m = None \<and> loaded fs m)"
proof -
  let ?ms0 = "ms[i := (ms ! i)\<lparr>dependenceMapping := Some []\<rparr>]"
  obtain ms' n' where st1: "st1 = (ms', n')" by (cases st1)
  have fe: "forEach_dependencies fs i (path_dirname (path (ms ! i))) (dependencies (ms ! i)) (?ms0, ident)
              = Inr (ms', n')"
    using assms(1) st1 by (simp add: loop_body_def Let_def)
  have "i < length ?ms0" "dependenceMapping (?ms0 ! i) = Some []"
    using assms(2) by simp_all
  from forEach_Inr[OF fe this] show ?thesis
    using assms(2) st1 by (auto simp: resolved_def)
qed

lemma loop_body_Inl:
  assumes "loop_body fs i (ms, ident) = Inl e" and "i < length ms"
  shows "\<exists>p \<in> set (resolved (ms ! i)). \<not> compiles fs p \<and>
           e = (if fs p = None then SourceReadError p else TransformError p)"
proof -
  let ?ms0 = "ms[i := (ms ! i)\<lparr>dependenceMapping := Some []\<rparr>]"
  have fe: "forEach_dependencies fs i (path_dirname (path (ms ! i))) (dependencies (ms ! i)) (?ms0, ident)
              = Inl e"
    using assms(1) by (simp add: loop_body_def Let_def)
  have "i < length ?ms0" "dependenceMapping (?ms0 ! i) \<noteq> None"
    using assms(2) by simp_all
  from forEach_Inl[OF fe this] show ?thesis
    by (auto simp: resolved_def)
qed

lemma length_resolved [simp]: "length (resolved m) = length (dependencies m)"
  by (simp add: resolved_def)

lemma length_concat_resolved:
  "length (concat (map resolved xs)) = sum_list (map (\<lambda>m. length (dependencies m)) xs)"
  by (induction xs) simp_all

lemma graph_inv_length:
  assumes "graph_inv fs entry n i (ms, ident)"
  shows "length ms = first_child ms i"
proof -
  have "length (map path ms) = length (entry # concat (map resolved (take i ms)))"
    using assms by (simp add: graph_inv_def)
  then show ?thesis by (simp add: first_child_def length_concat_resolved)
qed

lemma first_child_update:
  "k \<le> i \<Longrightarrow> i < length ms \<Longrightarrow> first_child (ms[i := x] @ news) k = first_child ms k"
  by (simp add: first_child_def)

lemma loop_body_inv:
  assumes inv: "graph_inv fs entry n i (ms, ident)" and i: "i < length ms"
    and body: "loop_body fs i (ms, ident) = Inr st1"
  shows "graph_inv fs entry n (Suc i) st1"
proof -
  let ?ds = "dependencies (ms ! i)"
  let ?mi = "(ms ! i)\<lparr>dependenceMapping := Some (assignments [] ?ds ident)\<rparr>"
  from loop_body_Inr[OF body i] obtain news where
    st1: "st1 = (ms[i := ?mi] @ news, ident + length ?ds)"
    and ids: "map module_id news = [ident ..< ident + length ?ds]"
    and paths: "map path news = resolved (ms ! i)"
    and fresh: "\<forall>m \<in> set news. dependenceMapping m = None \<and> loaded fs m"
    by blast
  let ?ms1 = "ms[i := ?mi] @ news"
  have len_news: "length news = length ?ds"
    using arg_cong[OF paths, of length] by simp
  have ident: "ident = n + length ms" using inv by (simp add: graph_inv_def)
  have len: "length ms = first_child ms i" by (rule graph_inv_length[OF inv])
  have upd_id: "map module_id (ms[i := ?mi]) = map module_id ms"
    using i by (simp add: map_update list_update_same_conv)
  have upd_path: "map path (ms[i := ?mi]) = map path ms"
    using i by (simp add: map_update list_update_same_conv)
  have c1: "Suc i \<le> length ?ms1" using i by simp
  have c2: "ident + length ?ds = n + length ?ms1" using ident len_news by simp
  have c3: "map module_id ?ms1 = [n ..< n + length ?ms1]"
  proof -
    have "map module_id ?ms1 = [n ..< n + length ms] @ [n + length ms ..< n + length ms + length ?ds]"
      using inv ids ident upd_id by (simp add: graph_inv_def)
    also have "\<dots> = [n ..< n + length ms + length ?ds]"
      by (metis le_add1 upt_add_eq_append)
    finally show ?thesis using len_news by (simp add: add.assoc)
  qed
  have take_Suc: "take (Suc i) ?ms1 = take i ms @ [?mi]"
    using i by (simp add: take_Suc_conv_app_nth)
  have res_mi: "resolved ?mi = resolved (ms ! i)" by (simp add: resolved_def)
  have c4: "map path ?ms1 = entry # concat (map resolved (take (Suc i) ?ms1))"
  proof -
    have "concat (map resolved (take (Suc i) ?ms1)) =
            concat (map resolved (take i ms)) @ resolved (ms ! i)"
      unfolding take_Suc by (simp add: res_mi)
    moreover have "map path ?ms1 = map path ms @ resolved (ms ! i)"
      using paths upd_path by simp
    ultimately show ?thesis using inv by (simp add: graph_inv_def)
  qed
  have c5: "\<forall>m \<in> set ?ms1. loaded fs m"
  proof
    fix m assume "m \<in> set ?ms1"
    then consider "m \<in> set news" | "m \<in> set (ms[i := ?mi])" by auto
    then show "loaded fs m"
    proof cases
      case 1 then show ?thesis using fresh by simp
    next
      case 2
      then have "m = ?mi \<or> m \<in> set ms" using set_update_subset_insert[of ms i ?mi] by auto
      moreover have "loaded fs (ms ! i)" using inv i by (simp add: graph_inv_def)
      then have "loaded fs ?mi" by (simp add: loaded_def)
      ultimately show ?thesis using inv by (auto simp: graph_inv_def)
    qed
  qed
  have c6: "\<forall>k<Suc i. k < first_child ?ms1 k \<and>
            dependenceMapping (?ms1 ! k) =
              Some (assignments [] (dependencies (?ms1 ! k)) (n + first_child ?ms1 k))"
  proof (intro allI impI)
    fix k assume k: "k < Suc i"
    then have fc: "first_child ?ms1 k = first_child ms k"
      using i by (intro first_child_update) simp_all
    show "k < first_child ?ms1 k \<and>
            dependenceMapping (?ms1 ! k) =
              Some (assignments [] (dependencies (?ms1 ! k)) (n + first_child ?ms1 k))"
    proof (cases "k = i")
      case True
      then show ?thesis using i fc len ident by (simp add: nth_append)
    next
      case False
      with k have "k < i" by simp
      then show ?thesis using inv i fc by (simp add: graph_inv_def nth_append)
    qed
  qed
  have c7: "\<forall>k. Suc i \<le> k \<and> k < length ?ms1 \<longrightarrow> dependenceMapping (?ms1 ! k) = None"
  proof (intro allI impI)
    fix k assume k: "Suc i \<le> k \<and> k < length ?ms1"
    show "dependenceMapping (?ms1 ! k) = None"
    proof (cases "k < length ms")
      case True
      then show ?thesis using inv k by (simp add: graph_inv_def nth_append)
    next
      case False
      then have "?ms1 ! k = news ! (k - length ms)" by (simp add: nth_append)
      moreover have "k - length ms < length news" using k False by auto
      ultimately show ?thesis using fresh by simp
    qed
  qed
  show ?thesis
    unfolding graph_inv_def st1 fst_conv snd_conv
    using c1 c2 c3 c4 c5 c6 c7 by blast
qed

lemma for_of_inv_aux:
  assumes "for_of fs i st = Some y"
  shows "graph_inv fs entry n i st \<Longrightarrow> y = Inr st' \<Longrightarrow> graph_inv fs entry n (length (fst st')) st'"
  using assms
proof (induct rule: for_of.raw_induct[rotated 1, consumes 1])
  case (1 f fs i st y)
  note inv = \<open>graph_inv fs entry n i st\<close> and y = \<open>y = Inr st'\<close>
  show ?case
  proof (cases "i < length (fst st)")
    case False
    with 1(2) y have "st' = st" by simp
    moreover have "i = length (fst st)" using False inv by (simp add: graph_inv_def)
    ultimately show ?thesis using inv by simp
  next
    case True
    show ?thesis
    proof (cases "loop_body fs i st")
      case (Inl e)
      with True 1(2) y show ?thesis by simp
    next
      case (Inr st1)
      with True 1(2) have run1: "f fs (Suc i) st1 = Some y" by simp
      have "graph_inv fs entry n (Suc i) st1"
        using loop_body_inv[of fs entry n i "fst st" "snd st" st1] inv True Inr by simp
      from 1(1)[OF run1 this y] show ?thesis .
    qed
  qed
qed

lemma for_of_inv:
  assumes "for_of fs i st = Some (Inr st')" and "graph_inv fs entry n i st"
  shows "graph_inv fs entry n (length (fst st')) st'"
  using for_of_inv_aux[OF assms(1) assms(2) refl] .

lemma createDependenceTree_inv:
  assumes "createDependenceTree fs entry n = Some (Inr (ms, n'))"
  shows "graph_inv fs entry n (length ms) (ms, n')"
proof -
  from assms obtain em n1 where cm: "createModule fs entry n = Inr (em, n1)"
    and run: "for_of fs 0 ([em], n1) = Some (Inr (ms, n'))"
    by (auto simp: createDependenceTree_def split: sum.splits)
  note p = createModule_Inr_props[OF cm]
  have "graph_inv fs entry n 0 ([em], n1)"
    using p by (simp add: graph_inv_def)
  from for_of_inv[OF run this] show ?thesis by simp
qed

lemma nth_concat:
  "k < length xss \<Longrightarrow> j < length (xss ! k) \<Longrightarrow>
     sum_list (map length (take k xss)) + j < length (concat xss)
     \<and> concat xss ! (sum_list (map length (take k xss)) + j) = xss ! k ! j"
proof (induction xss arbitrary: k)
  case Nil
  then show ?case by simp
next
  case (Cons xs xss)
  show ?case
  proof (cases k)
    case 0
    with Cons.prems show ?thesis by (simp add: nth_append)
  next
    case (Suc k')
    with Cons.prems Cons.IH[of k'] show ?thesis by (simp add: nth_append)
  qed
qed

lemma graph_child:
  assumes inv: "graph_inv fs entry n (length ms) (ms, n')"
    and k: "k < length ms" and j: "j < length (dependencies (ms ! k))"
  shows "first_child ms k + j < length ms"
    and "path (ms ! (first_child ms k + j)) = path_join (path_dirname (path (ms ! k))) (dependencies (ms ! k) ! j)"
    and "module_id (ms ! (first_child ms k + j)) = n + (first_child ms k + j)"
    and "k < first_child ms k + j"
proof -
  let ?xss = "map resolved ms"
  have paths: "map path ms = entry # concat ?xss" using inv by (simp add: graph_inv_def)
  have sum: "sum_list (map length (take k ?xss)) = sum_list (map (\<lambda>m. length (dependencies m)) (take k ms))"
    by (simp add: take_map comp_def)
  have "k < length ?xss" "j < length (?xss ! k)" using k j by simp_all
  from nth_concat[OF this] have
    a: "sum_list (map length (take k ?xss)) + j < length (concat ?xss)"
    and b: "concat ?xss ! (sum_list (map length (take k ?xss)) + j) = ?xss ! k ! j"
    by simp_all
  have len: "length ms = Suc (length (concat ?xss))"
    using arg_cong[OF paths, of length] by simp
  show c: "first_child ms k + j < length ms"
    using a len sum by (simp add: first_child_def)
  have "path (ms ! (first_child ms k + j)) = map path ms ! (first_child ms k + j)"
    using c by simp
  also have "\<dots> = concat ?xss ! (sum_list (map length (take k ?xss)) + j)"
    unfolding paths using sum by (simp add: first_child_def)
  also have "\<dots> = resolved (ms ! k) ! j" using b k by simp
  finally show "path (ms ! (first_child ms k + j)) = path_join (path_dirname (path (ms ! k))) (dependencies (ms ! k) ! j)"
    using j by (simp add: resolved_def)
  have "module_id (ms ! (first_child ms k + j)) = map module_id ms ! (first_child ms k + j)"
    using c by simp
  also have "\<dots> = [n ..< n + length ms] ! (first_child ms k + j)"
    using inv by (simp add: graph_inv_def)
  finally show "module_id (ms ! (first_child ms k + j)) = n + (first_child ms k + j)"
    using c by simp
  have "k < first_child ms k" using inv k by (simp add: graph_inv_def)
  then show "k < first_child ms k + j" by simp
qed

text \<open>What the object in \<^verbatim>\<open>dependenceMapping\<close> can hold, and where the children of a module sit.\<close>

lemma set_update_subset: "set (AList.update k v al) \<subseteq> insert (k, v) (set al)"
  by (induction al) auto

lemma set_js_put_subset: "set (js_put k v obj) \<subseteq> insert (k, v) (set obj)"
  using set_update_subset[of k v obj] by (auto simp: js_put_def)

lemma assignments_set:
  "(d, v) \<in> set (assignments obj ds v0) \<Longrightarrow>
     (d, v) \<in> set obj \<or> (\<exists>j < length ds. ds ! j = d \<and> v = v0 + j)"
proof (induction ds arbitrary: obj v0)
  case Nil
  then show ?case by (simp add: assignments_def)
next
  case (Cons a ds)
  from Cons.prems have "(d, v) \<in> set (assignments (js_put a v0 obj) ds (Suc v0))"
    by (simp add: assignments_Cons)
  from Cons.IH[OF this] show ?case
  proof
    assume "(d, v) \<in> set (js_put a v0 obj)"
    then have "(d, v) = (a, v0) \<or> (d, v) \<in> set obj"
      using set_js_put_subset[of a v0 obj] by auto
    then show ?thesis by auto
  next
    assume "\<exists>j<length ds. ds ! j = d \<and> v = Suc v0 + j"
    then obtain j where "j < length ds" "ds ! j = d" "v = Suc v0 + j" by blast
    then have "Suc j < length (a # ds) \<and> (a # ds) ! Suc j = d \<and> v = v0 + Suc j" by simp
    then show ?thesis by blast
  qed
qed

lemma first_child_Suc:
  "k < length ms \<Longrightarrow> first_child ms (Suc k) = first_child ms k + length (dependencies (ms ! k))"
  by (simp add: first_child_def take_Suc_conv_app_nth)

lemma first_child_mono:
  "a \<le> b \<Longrightarrow> b \<le> length ms \<Longrightarrow> first_child ms a \<le> first_child ms b"
proof (induction b)
  case 0
  then show ?case by simp
next
  case (Suc b)
  show ?case
  proof (cases "a = Suc b")
    case True
    then show ?thesis by simp
  next
    case False
    with Suc.prems have "a \<le> b" "b \<le> length ms" "b < length ms" by simp_all
    with Suc.IH first_child_Suc[of b ms] show ?thesis by simp
  qed
qed

lemma first_child_next:
  assumes "k < k'" "k' \<le> length ms"
  shows "first_child ms k + length (dependencies (ms ! k)) \<le> first_child ms k'"
proof -
  have "first_child ms (Suc k) \<le> first_child ms k'"
    using assms by (intro first_child_mono) simp_all
  then show ?thesis using assms first_child_Suc[of k ms] by simp
qed

lemma graph_mapping:
  assumes inv: "graph_inv fs entry n (length ms) (ms, n')"
    and k: "k < length ms" and dv: "(d, v) \<in> set (mapping_of (ms ! k))"
  shows "\<exists>j < length (dependencies (ms ! k)). dependencies (ms ! k) ! j = d \<and> v = n + (first_child ms k + j)"
proof -
  have "dependenceMapping (ms ! k) = Some (assignments [] (dependencies (ms ! k)) (n + first_child ms k))"
    using inv k by (simp add: graph_inv_def)
  with dv have "(d, v) \<in> set (assignments [] (dependencies (ms ! k)) (n + first_child ms k))"
    by (simp add: mapping_of_def)
  from assignments_set[OF this] show ?thesis by (simp add: add.assoc)
qed





lemma import_edge_resolved:
  assumes "loaded fs m"
  shows "import_edge fs (path m) q \<longleftrightarrow> q \<in> set (resolved m)"
  using assms by (auto simp: loaded_def import_edge_def resolved_def)





text \<open>
  In a list that is returned, what a module imports sits behind it.  A path on an
  import cycle would therefore sit at indices beyond every bound, so no list is
  returned for it; and when every file that can be reached compiles, no exception ends
  the loop either.
\<close>

lemma occurs_after:
  assumes inv: "graph_inv fs entry n (length ms) (ms, n')"
    and k: "k < length ms" and e: "import_edge fs (path (ms ! k)) q"
  shows "\<exists>c. k < c \<and> c < length ms \<and> path (ms ! c) = q"
proof -
  have ld: "loaded fs (ms ! k)" using inv k by (simp add: graph_inv_def)
  from e have "q \<in> set (resolved (ms ! k))" using import_edge_resolved[OF ld] by simp
  then obtain j where j: "j < length (dependencies (ms ! k))" and qj: "resolved (ms ! k) ! j = q"
    by (auto simp: in_set_conv_nth)
  note ch = graph_child[OF inv k j]
  have "path (ms ! (first_child ms k + j)) = q" using ch(2) qj j by (simp add: resolved_def)
  with ch(1,4) show ?thesis by blast
qed

lemma occurs_after_trancl:
  assumes inv: "graph_inv fs entry n (length ms) (ms, n')" and t: "tranclp (import_edge fs) p q"
  shows "k < length ms \<Longrightarrow> path (ms ! k) = p \<Longrightarrow> \<exists>c. k < c \<and> c < length ms \<and> path (ms ! c) = q"
  using t
proof (induction arbitrary: k rule: tranclp_induct)
  case (base q)
  from occurs_after[OF inv base.prems(1)] base.hyps base.prems(2) show ?case by simp
next
  case (step q r)
  from step.IH[OF step.prems] obtain c where c: "k < c" "c < length ms" "path (ms ! c) = q" by blast
  from occurs_after[OF inv c(2)] step.hyps(2) c(3) obtain c' where
    "c < c'" "c' < length ms" "path (ms ! c') = r" by auto
  with c(1) show ?case by (intro exI[of _ c']) simp
qed

lemma occurs_reachable:
  assumes inv: "graph_inv fs entry n (length ms) (ms, n')" and r: "rtranclp (import_edge fs) entry p"
  shows "\<exists>k < length ms. path (ms ! k) = p"
  using r
proof (induction rule: rtranclp_induct)
  case base
  have "map path ms = entry # concat (map resolved ms)" using inv by (simp add: graph_inv_def)
  then obtain m rest where "ms = m # rest" "path m = entry" by (cases ms) auto
  then show ?case by (intro exI[of _ 0]) simp
next
  case (step q r)
  then obtain k where k: "k < length ms" "path (ms ! k) = q" by blast
  from occurs_after[OF inv k(1)] step.hyps(2) k(2) show ?case by auto
qed

lemma cycle_no_graph:
  assumes r: "rtranclp (import_edge fs) entry p" and c: "tranclp (import_edge fs) p p"
  shows "createDependenceTree fs entry n \<noteq> Some (Inr g)"
proof
  assume h: "createDependenceTree fs entry n = Some (Inr g)"
  obtain ms n' where g: "g = (ms, n')" by (cases g)
  have inv: "graph_inv fs entry n (length ms) (ms, n')"
    by (rule createDependenceTree_inv) (use h g in simp)
  have "\<exists>k. N \<le> k \<and> k < length ms \<and> path (ms ! k) = p" for N
  proof (induction N)
    case 0
    from occurs_reachable[OF inv r] show ?case by auto
  next
    case (Suc N)
    then obtain k where k: "N \<le> k" "k < length ms" "path (ms ! k) = p" by blast
    from occurs_after_trancl[OF inv c k(2,3)] obtain k' where "k < k'" "k' < length ms" "path (ms ! k') = p"
      by blast
    with k(1) show ?case by (intro exI[of _ k']) simp
  qed
  from this[of "length ms"] show False by auto
qed

lemma loop_body_reachable:
  assumes inv: "graph_inv fs entry n i (ms, ident)" and i: "i < length ms"
    and body: "loop_body fs i (ms, ident) = Inr st1"
    and reach: "\<forall>m \<in> set ms. rtranclp (import_edge fs) entry (path m)"
  shows "\<forall>m \<in> set (fst st1). rtranclp (import_edge fs) entry (path m)"
proof -
  from loop_body_Inr[OF body i] obtain news where
    st1: "fst st1 = ms[i := (ms ! i)\<lparr>dependenceMapping :=
                           Some (assignments [] (dependencies (ms ! i)) ident)\<rparr>] @ news"
    and paths: "map path news = resolved (ms ! i)" by auto
  have ld: "loaded fs (ms ! i)" using inv i by (simp add: graph_inv_def)
  have ri: "rtranclp (import_edge fs) entry (path (ms ! i))" using reach i by simp
  show ?thesis
  proof
    fix m assume "m \<in> set (fst st1)"
    then consider "m \<in> set news" | "m \<in> set (ms[i := (ms ! i)\<lparr>dependenceMapping :=
                           Some (assignments [] (dependencies (ms ! i)) ident)\<rparr>])"
      unfolding st1 by auto
    then show "rtranclp (import_edge fs) entry (path m)"
    proof cases
      case 1
      then have "path m \<in> set (map path news)" by simp
      then have "import_edge fs (path (ms ! i)) (path m)"
        unfolding paths using import_edge_resolved[OF ld] by simp
      with ri show ?thesis by (rule rtranclp.rtrancl_into_rtrancl)
    next
      case 2
      then have "m = (ms ! i)\<lparr>dependenceMapping :=
                           Some (assignments [] (dependencies (ms ! i)) ident)\<rparr> \<or> m \<in> set ms"
        using set_update_subset_insert[of ms i] by auto
      then show ?thesis using ri reach by auto
    qed
  qed
qed

lemma for_of_no_error:
  assumes "for_of fs i st = Some y"
  shows "\<forall>q. rtranclp (import_edge fs) entry q \<longrightarrow> compiles fs q \<Longrightarrow>
         graph_inv fs entry n i st \<Longrightarrow>
         \<forall>m \<in> set (fst st). rtranclp (import_edge fs) entry (path m) \<Longrightarrow> y \<noteq> Inl e"
  using assms
proof (induct rule: for_of.raw_induct[rotated 1, consumes 1])
  case (1 f fs i st y)
  note ok = \<open>\<forall>q. rtranclp (import_edge fs) entry q \<longrightarrow> compiles fs q\<close>
    and inv = \<open>graph_inv fs entry n i st\<close>
    and reach = \<open>\<forall>m \<in> set (fst st). rtranclp (import_edge fs) entry (path m)\<close>
  obtain ms ident where st: "st = (ms, ident)" by (cases st)
  show ?case
  proof (cases "i < length (fst st)")
    case False
    with 1(2) show ?thesis by auto
  next
    case True
    then have il: "i < length ms" using st by simp
    show ?thesis
    proof (cases "loop_body fs i st")
      case (Inl e')
      from loop_body_Inl[OF Inl[unfolded st] il] obtain p where
        p: "p \<in> set (resolved (ms ! i))" "\<not> compiles fs p" by blast
      have ld: "loaded fs (ms ! i)" using inv il st by (simp add: graph_inv_def)
      have "import_edge fs (path (ms ! i)) p" using import_edge_resolved[OF ld] p(1) by simp
      moreover have "rtranclp (import_edge fs) entry (path (ms ! i))" using reach il st by simp
      ultimately have "rtranclp (import_edge fs) entry p" by (rule rtranclp.rtrancl_into_rtrancl[rotated])
      with ok p(2) show ?thesis by blast
    next
      case (Inr st1)
      with True 1(2) have run1: "f fs (Suc i) st1 = Some y" by simp
      have inv1: "graph_inv fs entry n (Suc i) st1"
        using loop_body_inv[of fs entry n i ms ident st1] inv il Inr st by simp
      have reach1: "\<forall>m \<in> set (fst st1). rtranclp (import_edge fs) entry (path m)"
        using loop_body_reachable[of fs entry n i ms ident st1] inv il Inr st reach by simp
      from 1(1)[OF run1 ok inv1 reach1] show ?thesis .
    qed
  qed
qed

lemma no_error_when_all_compile:
  assumes ok: "\<forall>q. rtranclp (import_edge fs) entry q \<longrightarrow> compiles fs q"
  shows "createDependenceTree fs entry n \<noteq> Some (Inl e)"
proof
  assume h: "createDependenceTree fs entry n = Some (Inl e)"
  have "compiles fs entry" using ok by blast
  then obtain em n1 where cm: "createModule fs entry n = Inr (em, n1)"
    by (cases "createModule fs entry n") (auto simp: createModule_Inl)
  note p = createModule_Inr_props[OF cm]
  have run: "for_of fs 0 ([em], n1) = Some (Inl e)"
    using h cm by (simp add: createDependenceTree_def)
  have inv: "graph_inv fs entry n 0 ([em], n1)" using p by (simp add: graph_inv_def)
  have reach: "\<forall>m \<in> set (fst ([em], n1)). rtranclp (import_edge fs) entry (path m)"
    using p by simp
  from for_of_no_error[OF run ok inv reach, of e] show False by simp
qed

lemma cycle_runs_forever:
  assumes "rtranclp (import_edge fs) entry p" and "tranclp (import_edge fs) p p"
    and "\<forall>q. rtranclp (import_edge fs) entry q \<longrightarrow> compiles fs q"
  shows "createDependenceTree fs entry n = None"
proof (cases "createDependenceTree fs entry n")
  case None
  then show ?thesis .
next
  case (Some r)
  then show ?thesis
    using cycle_no_graph[OF assms(1,2), of n] no_error_when_all_compile[OF assms(3), of n]
    by (cases r) auto
qed


lemma cycle_fs_edges:
  "import_edge cycle_fs ''./example/entry.js'' q \<longleftrightarrow> q = ''example/a.js''"
  "import_edge cycle_fs ''example/a.js'' q \<longleftrightarrow> q = ''example/b.js''"
  "import_edge cycle_fs ''example/b.js'' q \<longleftrightarrow> q = ''example/a.js''"
proof -
  have "map (path_join (path_dirname ''./example/entry.js'')) (traverse (Node [ImportDeclaration ''./a.js'']) [])
          = [''example/a.js'']"
    "map (path_join (path_dirname ''example/a.js'')) (traverse (Node [ImportDeclaration ''./b.js'']) [])
          = [''example/b.js'']"
    "map (path_join (path_dirname ''example/b.js'')) (traverse (Node [ImportDeclaration ''./a.js'']) [])
          = [''example/a.js'']"
    by code_simp+
  then show
    "import_edge cycle_fs ''./example/entry.js'' q \<longleftrightarrow> q = ''example/a.js''"
    "import_edge cycle_fs ''example/a.js'' q \<longleftrightarrow> q = ''example/b.js''"
    "import_edge cycle_fs ''example/b.js'' q \<longleftrightarrow> q = ''example/a.js''"
    by (simp_all add: import_edge_def cycle_fs_def)
qed

lemma cycle_fs_reach: "rtranclp (import_edge cycle_fs) ''./example/entry.js'' ''example/a.js''"
  by (rule r_into_rtranclp) (simp add: cycle_fs_edges)

lemma cycle_fs_cycle: "tranclp (import_edge cycle_fs) ''example/a.js'' ''example/a.js''"
proof -
  have "import_edge cycle_fs ''example/a.js'' ''example/b.js''" by (simp add: cycle_fs_edges)
  moreover have "import_edge cycle_fs ''example/b.js'' ''example/a.js''" by (simp add: cycle_fs_edges)
  ultimately show ?thesis by (rule tranclp.intros(2)[OF tranclp.intros(1)])
qed

lemma cycle_fs_compiles:
  "\<forall>q. rtranclp (import_edge cycle_fs) ''./example/entry.js'' q \<longrightarrow> compiles cycle_fs q"
proof (intro allI impI)
  fix q assume "rtranclp (import_edge cycle_fs) ''./example/entry.js'' q"
  then have "q \<in> {''./example/entry.js'', ''example/a.js'', ''example/b.js''}"
    by (induction rule: rtranclp_induct) (auto simp: cycle_fs_edges)
  then show "compiles cycle_fs q" by (auto simp: compiles_def cycle_fs_def)
qed

section \<open>The bundle and its loader\<close>

lemma bundle_forEach_concat:
  "bundle_forEach graph modules = modules @ concat (map module_entry graph)"
  by (induction graph arbitrary: modules) simp_all

text \<open>A call that returns has only added to the trace, and \<^verbatim>\<open>require(i)\<close> adds \<open>i\<close> first.\<close>

lemma trace_extends:
  "require depth modules ident trace = Some (Inr (ex, trace')) \<Longrightarrow>
     \<exists>rest. trace' = trace @ rest \<and> (\<forall>i. ident = Some i \<longrightarrow> rest \<noteq> [] \<and> hd rest = i)"
  "call_fn depth modules mapping body exports trace = Some (Inr (ex, trace')) \<Longrightarrow>
     \<exists>rest. trace' = trace @ rest"
proof (induction depth modules ident trace and depth modules mapping body exports trace
       arbitrary: ex trace' and ex trace' rule: require_call_fn.induct)
  case (1 modules ident trace)
  then show ?case by simp
next
  case (2 depth modules ident trace)
  from "2.prems" obtain i fn mapping where i: "ident = Some i" and m: "modules i = Some (fn, mapping)"
    and run: "call_fn depth modules mapping fn [] (trace @ [i]) = Some (Inr (ex, trace'))"
    by (auto split: option.splits prod.splits)
  from "2.IH"[OF i m refl run] obtain rest where "trace' = (trace @ [i]) @ rest" by blast
  then have "trace' = trace @ (i # rest)" by simp
  then show ?case using i by (intro exI[of _ "i # rest"]) simp
next
  case (3 depth modules mapping exports trace)
  then show ?case by simp
next
  case (4 depth modules mapping name rest exports trace)
  from "4.prems" obtain required trace1 where
    r: "require depth modules (map_of mapping name) trace = Some (Inr (required, trace1))"
    and c: "call_fn depth modules mapping rest exports trace1 = Some (Inr (ex, trace'))"
    by (auto split: option.splits sum.splits prod.splits)
  from "4.IH"(1)[OF r] obtain r1 where r1: "trace1 = trace @ r1" by blast
  from "4.IH"(2)[OF r refl refl c] obtain r2 where "trace' = trace1 @ r2" by blast
  with r1 show ?case by simp
next
  case (5 depth modules mapping k v rest exports trace)
  then show ?case by simp
qed

section \<open>The claims\<close>

text \<open>
  C6 (amended).  The ids come from the one counter \<^verbatim>\<open>identifier\<close>, which starts at 0 when
  the process starts and is never reset.  A call of \<^verbatim>\<open>createDependenceTree\<close> that starts
  with the counter at \<open>n\<close> and returns gives its module objects the consecutive ids
  \<open>n, n + 1, \<dots>\<close> in the order of the list, one id for every object created; the entry
  module is first and gets \<open>n\<close>, which is 0 for the first call in a process only.
\<close>

theorem ids_follow_global_counter:
  assumes "createDependenceTree fs entry n = Some (Inr (ms, n'))"
  shows "map module_id ms = [n ..< n + length ms] \<and> n' = n + length ms
         \<and> ms \<noteq> [] \<and> path (hd ms) = entry \<and> module_id (hd ms) = n"
proof -
  have inv: "graph_inv fs entry n (length ms) (ms, n')"
    by (rule createDependenceTree_inv[OF assms])
  then have ids: "map module_id ms = [n ..< n + length ms]" and cnt: "n' = n + length ms"
    and paths: "map path ms = entry # concat (map resolved ms)"
    by (simp_all add: graph_inv_def)
  from paths have ne: "ms \<noteq> []" by auto
  then obtain m rest where ms: "ms = m # rest" by (cases ms) auto
  have "path m = entry" using paths ms by simp
  moreover have "module_id m = n" using ids ms by (simp add: upt_conv_Cons del: upt_Suc)
  ultimately show ?thesis using ids cnt ne ms by simp
qed

theorem ids_follow_global_counter_witness:
  "createDependenceTree pair_fs ''./example/entry.js'' 2 = Some (Inr (pair_graph 2, 4))
   \<and> map module_id (pair_graph 2) = [2 ..< 2 + length (pair_graph 2)]
   \<and> (4::nat) = 2 + length (pair_graph 2)
   \<and> pair_graph 2 \<noteq> [] \<and> path (hd (pair_graph 2)) = ''./example/entry.js''
   \<and> module_id (hd (pair_graph 2)) = 2"
proof -
  have h: "createDependenceTree pair_fs ''./example/entry.js'' 2 = Some (Inr (pair_graph 2, 4))"
    by code_simp
  from ids_follow_global_counter[OF h] h show ?thesis by simp
qed

text \<open>
  C6 as stated fails twice.  An id is given at every discovery, not once at the first:
  in the diamond \<^verbatim>\<open>example/d.js\<close> gets the ids 3 and 4.  And a second call in the same
  process starts where the first one left the counter, so its entry module gets that
  value as its id, not 0.
\<close>

theorem ids_not_once_not_from_zero_counterexample:
  "createDependenceTree diamond_fs ''./example/entry.js'' 0 = Some (Inr (diamond_graph, 5))
   \<and> path (diamond_graph ! 3) = ''example/d.js'' \<and> module_id (diamond_graph ! 3) = 3
   \<and> path (diamond_graph ! 4) = ''example/d.js'' \<and> module_id (diamond_graph ! 4) = 4
   \<and> createDependenceTree pair_fs ''./example/entry.js'' 0 = Some (Inr (pair_graph 0, 2))
   \<and> createDependenceTree pair_fs ''./example/entry.js'' 2 = Some (Inr (pair_graph 2, 4))
   \<and> module_id (hd (pair_graph 2)) = 2"
  by code_simp



text \<open>
  C1 (amended).  There is no table of visited paths: every specifier of every module
  makes a module object of its own.  In a list that is returned, the number of objects
  with path \<open>p\<close> is the number of specifiers in the list that resolve to \<open>p\<close> (and one
  more if \<open>p\<close> is the entry path); the ids are pairwise distinct; every entry of a
  module's object points to a later module whose path is the specifier joined to the
  module's directory, and to an id that no other module's object holds.  So in a
  diamond \<open>D\<close> has one object for each importer, and the objects of \<open>B\<close> and \<open>C\<close> map
  their specifier for \<open>D\<close> to different ids.
\<close>

theorem one_record_per_import:
  assumes "createDependenceTree fs entry n = Some (Inr (ms, n'))"
  shows "length (filter (\<lambda>m. path m = p) ms) =
           (if entry = p then 1 else 0) + length (filter (\<lambda>q. q = p) (concat (map resolved ms)))
         \<and> distinct (map module_id ms)
         \<and> (\<forall>k < length ms. \<forall>d v. (d, v) \<in> set (mapping_of (ms ! k)) \<longrightarrow>
               (\<exists>c < length ms. k < c \<and> module_id (ms ! c) = v
                  \<and> path (ms ! c) = path_join (path_dirname (path (ms ! k))) d
                  \<and> (\<forall>k' < length ms. k' \<noteq> k \<longrightarrow> v \<notin> snd ` set (mapping_of (ms ! k')))))"
proof -
  have inv: "graph_inv fs entry n (length ms) (ms, n')"
    by (rule createDependenceTree_inv[OF assms])
  have paths: "map path ms = entry # concat (map resolved ms)"
    and ids: "map module_id ms = [n ..< n + length ms]"
    using inv by (simp_all add: graph_inv_def)
  have "length (filter (\<lambda>m. path m = p) ms) = length (filter (\<lambda>q. q = p) (map path ms))"
    by (simp add: filter_map comp_def)
  then have a: "length (filter (\<lambda>m. path m = p) ms) =
           (if entry = p then 1 else 0) + length (filter (\<lambda>q. q = p) (concat (map resolved ms)))"
    unfolding paths by simp
  have b: "distinct (map module_id ms)" unfolding ids by simp
  have c: "\<exists>c < length ms. k < c \<and> module_id (ms ! c) = v
                  \<and> path (ms ! c) = path_join (path_dirname (path (ms ! k))) d
                  \<and> (\<forall>k' < length ms. k' \<noteq> k \<longrightarrow> v \<notin> snd ` set (mapping_of (ms ! k')))"
    if k: "k < length ms" and dv: "(d, v) \<in> set (mapping_of (ms ! k))" for k d v
  proof -
    from graph_mapping[OF inv k dv] obtain j where
      j: "j < length (dependencies (ms ! k))" and dj: "dependencies (ms ! k) ! j = d"
      and v: "v = n + (first_child ms k + j)" by blast
    note ch = graph_child[OF inv k j]
    have other: "v \<notin> snd ` set (mapping_of (ms ! k'))" if k': "k' < length ms" and ne: "k' \<noteq> k" for k'
    proof
      assume "v \<in> snd ` set (mapping_of (ms ! k'))"
      then obtain d' where "(d', v) \<in> set (mapping_of (ms ! k'))" by force
      from graph_mapping[OF inv k' this] obtain j' where
        j': "j' < length (dependencies (ms ! k'))" and v': "v = n + (first_child ms k' + j')" by blast
      from ne consider "k < k'" | "k' < k" by linarith
      then show False
      proof cases
        case 1
        from first_child_next[OF 1, of ms] k' j v v' show False by simp
      next
        case 2
        from first_child_next[OF 2, of ms] k j' v v' show False by simp
      qed
    qed
    show ?thesis
      using ch dj v other by (intro exI[of _ "first_child ms k + j"]) simp
  qed
  from a b c show ?thesis by blast
qed


theorem one_record_per_import_witness:
  "createDependenceTree diamond_fs ''./example/entry.js'' 0 = Some (Inr (diamond_graph, 5))
   \<and> length (filter (\<lambda>m. path m = ''example/d.js'') diamond_graph) =
         (if ''./example/entry.js'' = ''example/d.js'' then 1 else 0)
         + length (filter (\<lambda>q. q = ''example/d.js'') (concat (map resolved diamond_graph)))
   \<and> distinct (map module_id diamond_graph)
   \<and> 1 < length diamond_graph \<and> 2 < length diamond_graph
   \<and> (''./d.js'', 3) \<in> set (mapping_of (diamond_graph ! 1))
   \<and> (\<exists>c < length diamond_graph. 1 < c \<and> module_id (diamond_graph ! c) = 3
          \<and> path (diamond_graph ! c) = path_join (path_dirname (path (diamond_graph ! 1))) ''./d.js''
          \<and> 3 \<notin> snd ` set (mapping_of (diamond_graph ! 2)))"
proof -
  have h: "createDependenceTree diamond_fs ''./example/entry.js'' 0 = Some (Inr (diamond_graph, 5))"
    by code_simp
  have k: "1 < length diamond_graph" "2 < length diamond_graph" "2 \<noteq> (1::nat)"
    by (simp_all add: diamond_graph_def)
  have dv: "(''./d.js'', 3) \<in> set (mapping_of (diamond_graph ! 1))"
    by (simp add: diamond_graph_def mapping_of_def)
  note t = one_record_per_import[OF h, of "''example/d.js''"]
  from t have a: "length (filter (\<lambda>m. path m = ''example/d.js'') diamond_graph) =
         (if ''./example/entry.js'' = ''example/d.js'' then 1 else 0)
         + length (filter (\<lambda>q. q = ''example/d.js'') (concat (map resolved diamond_graph)))"
    and b: "distinct (map module_id diamond_graph)" by blast+
  from t k(1) dv obtain c where c: "c < length diamond_graph" "1 < c" "module_id (diamond_graph ! c) = 3"
      "path (diamond_graph ! c) = path_join (path_dirname (path (diamond_graph ! 1))) ''./d.js''"
      "\<forall>k' < length diamond_graph. k' \<noteq> 1 \<longrightarrow> 3 \<notin> snd ` set (mapping_of (diamond_graph ! k'))"
    by blast
  from c(5) k have "3 \<notin> snd ` set (mapping_of (diamond_graph ! 2))" by blast
  with h a b k dv c show ?thesis by blast
qed

text \<open>
  C1 as stated fails on the diamond: \<^verbatim>\<open>example/d.js\<close> has two module objects, and the
  objects of \<^verbatim>\<open>b.js\<close> and \<^verbatim>\<open>c.js\<close> map \<^verbatim>\<open>./d.js\<close> to the ids 3 and 4.
\<close>

theorem diamond_two_records_counterexample:
  "createDependenceTree diamond_fs ''./example/entry.js'' 0 = Some (Inr (diamond_graph, 5))
   \<and> count_list (map path diamond_graph) ''example/d.js'' = 2
   \<and> path (diamond_graph ! 1) = ''example/b.js''
   \<and> map_of (mapping_of (diamond_graph ! 1)) ''./d.js'' = Some 3
   \<and> path (diamond_graph ! 2) = ''example/c.js''
   \<and> map_of (mapping_of (diamond_graph ! 2)) ''./d.js'' = Some 4"
  by code_simp

text \<open>
  C4 (amended).  The only candidate for a specifier is \<^verbatim>\<open>path.join\<close> of the importing
  module's directory and the specifier; no suffix is appended and no index file is
  looked for.  When \<^verbatim>\<open>createDependenceTree\<close> returns, every specifier of every module
  in the list has its file at exactly that path, and a module object with that path is
  in the list.
\<close>

theorem resolution_is_join_only:
  assumes "createDependenceTree fs entry n = Some (Inr (ms, n'))"
    and "m \<in> set ms" and "d \<in> set (dependencies m)"
  shows "compiles fs (path_join (path_dirname (path m)) d)
         \<and> (\<exists>m' \<in> set ms. path m' = path_join (path_dirname (path m)) d \<and> loaded fs m')"
proof -
  have inv: "graph_inv fs entry n (length ms) (ms, n')"
    by (rule createDependenceTree_inv[OF assms(1)])
  from assms(2) obtain k where k: "k < length ms" and m: "m = ms ! k"
    by (auto simp: in_set_conv_nth)
  from assms(3) m obtain j where j: "j < length (dependencies (ms ! k))"
    and d: "dependencies (ms ! k) ! j = d"
    by (auto simp: in_set_conv_nth)
  let ?c = "first_child ms k + j"
  note ch = graph_child[OF inv k j]
  have mem: "ms ! ?c \<in> set ms" using ch(1) by simp
  then have ld: "loaded fs (ms ! ?c)" using inv by (simp add: graph_inv_def)
  have p: "path (ms ! ?c) = path_join (path_dirname (path m)) d" using ch(2) d m by simp
  have "compiles fs (path_join (path_dirname (path m)) d)"
    using ld p by (auto simp: loaded_def compiles_def)
  with mem ld p show ?thesis by blast
qed

theorem resolution_is_join_only_witness:
  "createDependenceTree pair_fs ''./example/entry.js'' 0 = Some (Inr (pair_graph 0, 2))
   \<and> pair_graph 0 ! 0 \<in> set (pair_graph 0)
   \<and> ''./a.js'' \<in> set (dependencies (pair_graph 0 ! 0))
   \<and> compiles pair_fs (path_join (path_dirname (path (pair_graph 0 ! 0))) ''./a.js'')
   \<and> (\<exists>m' \<in> set (pair_graph 0).
         path m' = path_join (path_dirname (path (pair_graph 0 ! 0))) ''./a.js'' \<and> loaded pair_fs m')"
proof -
  have h: "createDependenceTree pair_fs ''./example/entry.js'' 0 = Some (Inr (pair_graph 0, 2))"
    by code_simp
  have m: "pair_graph 0 ! 0 \<in> set (pair_graph 0)" by (simp add: pair_graph_def)
  have d: "''./a.js'' \<in> set (dependencies (pair_graph 0 ! 0))" by (simp add: pair_graph_def)
  from resolution_is_join_only[OF h m d] h m d show ?thesis by blast
qed

text \<open>
  C4 as stated fails: with \<^verbatim>\<open>./x\<close> imported, \<^verbatim>\<open>example/x\<close> absent and \<^verbatim>\<open>example/x.js\<close>
  present, the build does not use \<^verbatim>\<open>example/x.js\<close> but ends with the read error for
  \<^verbatim>\<open>example/x\<close>.
\<close>

theorem no_fallback_suffix_counterexample:
  "fallback_fs ''example/x'' = None
   \<and> fallback_fs ''example/x.js'' = Some (Compiled (Node []) ''X'')
   \<and> createDependenceTree fallback_fs ''./example/entry.js'' 0 = Some (Inl (SourceReadError ''example/x''))"
  by code_simp



text \<open>
  C3 (amended).  The loader has no cache of exports: \<^verbatim>\<open>require(id)\<close> builds a new module
  object and calls the id's function on every call.  A call \<^verbatim>\<open>require(i)\<close> that returns
  has called the function of \<open>i\<close> first, and after two calls that return, from any
  modules, the function of \<open>i\<close> has run at least twice more, side effects included.
\<close>

theorem require_calls_function_every_time:
  assumes "require depth modules (Some i) trace = Some (Inr (exports1, trace1))"
    and "require depth' modules (Some i) (trace1 @ between) = Some (Inr (exports2, trace2))"
  shows "(\<exists>rest. trace1 = trace @ i # rest) \<and> count_list trace i + 2 \<le> count_list trace2 i"
proof -
  from trace_extends(1)[OF assms(1)] obtain r1 where r1: "trace1 = trace @ r1" "r1 \<noteq> []" "hd r1 = i"
    by auto
  from trace_extends(1)[OF assms(2)] obtain r2 where r2: "trace2 = (trace1 @ between) @ r2" "r2 \<noteq> []" "hd r2 = i"
    by auto
  from r1 obtain t1 where t1: "r1 = i # t1" by (cases r1) auto
  from r2 obtain t2 where t2: "r2 = i # t2" by (cases r2) auto
  have "trace2 = trace @ i # t1 @ between @ i # t2" using r1 r2 t1 t2 by simp
  then have "count_list trace2 i = count_list trace i + 2 + count_list t1 i + count_list between i + count_list t2 i"
    by simp
  then show ?thesis using r1 t1 by simp
qed

theorem require_calls_function_every_time_witness:
  "require 1 twice_modules (Some 1) [0] = Some (Inr ([(''loaded'', ''yes'')], [0, 1]))
   \<and> require 1 twice_modules (Some 1) ([0, 1] @ []) = Some (Inr ([(''loaded'', ''yes'')], [0, 1, 1]))
   \<and> (\<exists>rest. [0, 1::nat] = [0] @ 1 # rest)
   \<and> count_list [0] (1::nat) + 2 \<le> count_list [0, 1, 1] (1::nat)"
proof -
  have a: "require 1 twice_modules (Some 1) [0] = Some (Inr ([(''loaded'', ''yes'')], [0, 1]))"
    by code_simp
  have b: "require 1 twice_modules (Some 1) ([0, 1] @ []) = Some (Inr ([(''loaded'', ''yes'')], [0, 1, 1]))"
    by code_simp
  note c = require_calls_function_every_time[OF a b]
  from a b c show ?thesis by blast
qed

text \<open>
  C3 as stated fails: the function of module 0 requires \<^verbatim>\<open>./d.js\<close> twice, and the function
  of module 1 runs twice.
\<close>

theorem factory_runs_twice_counterexample:
  "require 2 twice_modules (Some 0) [] = Some (Inr ([], [0, 1, 1]))
   \<and> count_list [0, 1, 1] (1::nat) = 2"
  by code_simp

text \<open>
  C10.  A name that is no key of the module's object makes the argument of \<^verbatim>\<open>require\<close> a
  value that is no id; \<^verbatim>\<open>modules[id]\<close> is \<^verbatim>\<open>undefined\<close>, the destructuring in the first
  statement of \<^verbatim>\<open>require\<close> throws a type error, and the error leaves the calling function
  and the \<^verbatim>\<open>require\<close> that called it.  Nothing is returned.
\<close>

theorem unknown_specifier_type_error:
  assumes "map_of mapping name = None"
  shows "require (Suc depth) modules (map_of mapping name) trace = Some (Inl TypeError)
         \<and> call_fn (Suc depth) modules mapping (Require name # rest) exports trace = Some (Inl TypeError)
         \<and> (modules i = Some (Require name # rest, mapping) \<longrightarrow>
              require (Suc (Suc depth)) modules (Some i) trace = Some (Inl TypeError))"
  using assms by simp

theorem unknown_specifier_type_error_witness:
  "map_of ([] :: (string \<times> nat) list) ''./math.js'' = None
   \<and> math_modules 0 = Some (Require ''./math.js'' # [], [])
   \<and> require (Suc 0) math_modules (map_of [] ''./math.js'') [] = Some (Inl TypeError)
   \<and> call_fn (Suc 0) math_modules [] (Require ''./math.js'' # []) [] [] = Some (Inl TypeError)
   \<and> require (Suc (Suc 0)) math_modules (Some 0) [] = Some (Inl TypeError)"
proof -
  have h: "map_of ([] :: (string \<times> nat) list) ''./math.js'' = None" by simp
  have t: "math_modules 0 = Some (Require ''./math.js'' # [], [])"
    by (simp add: math_modules_def)
  from unknown_specifier_type_error[OF h, of 0 math_modules "[]" "[]" "[]" 0] h t
  show ?thesis by blast
qed

text \<open>
  C7 (amended).  The text is the fixed loader up to \<^verbatim>\<open>})({\<close>, one entry for every module
  object in list order, and \<^verbatim>\<open>})\<close>; an entry is the id, the compiled code inside
  \<^verbatim>\<open>function(require, module, exports) { }\<close> and the object as \<^verbatim>\<open>JSON.stringify\<close> prints
  it.  For a list that \<^verbatim>\<open>createDependenceTree\<close> returns the ids ascend, every object is
  set, and the first id is the counter's value at the start.  The loader ends with the
  statement \<^verbatim>\<open>require(0);\<close>, whatever the entry's id, and drops what that call returns:
  a run of the text that ends has the value \<^verbatim>\<open>undefined\<close>.
\<close>

theorem bundle_shape:
  "bundle_text graph = loader_head @ concat (map module_entry graph) @ loader_tail
   \<and> (\<exists>body. loader_head = body @ ''      require(0);\<newline>    })({'')
   \<and> (createDependenceTree fs entry n = Some (Inr (graph, n')) \<longrightarrow>
         sorted_wrt (<) (map module_id graph) \<and> module_id (hd graph) = n
         \<and> (\<forall>m \<in> set graph. dependenceMapping m \<noteq> None))
   \<and> (run_bundle depth modules = Some (Inr (v, trace)) \<longrightarrow>
         v = None \<and> (\<exists>exports. require depth modules (Some 0) [] = Some (Inr (exports, trace))))"
proof -
  have a: "bundle_text graph = loader_head @ concat (map module_entry graph) @ loader_tail"
    by (simp add: bundle_text_def bundle_forEach_concat)
  have b: "\<exists>body. loader_head = body @ ''      require(0);\<newline>    })({''"
    unfolding loader_head_def by (simp add: append_eq_append_conv2)
  have c: "sorted_wrt (<) (map module_id graph) \<and> module_id (hd graph) = n
           \<and> (\<forall>m \<in> set graph. dependenceMapping m \<noteq> None)"
    if h: "createDependenceTree fs entry n = Some (Inr (graph, n'))"
  proof -
    have inv: "graph_inv fs entry n (length graph) (graph, n')"
      by (rule createDependenceTree_inv[OF h])
    then have ids: "map module_id graph = [n ..< n + length graph]"
      and paths: "map path graph = entry # concat (map resolved graph)"
      by (simp_all add: graph_inv_def)
    from paths obtain m rest where g: "graph = m # rest" by (cases graph) auto
    have "module_id (hd graph) = n" using ids g by (simp add: upt_conv_Cons del: upt_Suc)
    moreover have "sorted_wrt (<) (map module_id graph)" unfolding ids by simp
    moreover have "\<forall>m \<in> set graph. dependenceMapping m \<noteq> None"
    proof
      fix m assume "m \<in> set graph"
      then obtain k where "k < length graph" "m = graph ! k" by (auto simp: in_set_conv_nth)
      with inv show "dependenceMapping m \<noteq> None" by (simp add: graph_inv_def)
    qed
    ultimately show ?thesis by simp
  qed
  have d: "v = None \<and> (\<exists>exports. require depth modules (Some 0) [] = Some (Inr (exports, trace)))"
    if "run_bundle depth modules = Some (Inr (v, trace))"
    using that by (auto simp: run_bundle_def split: option.splits sum.splits prod.splits)
  from a b c d show ?thesis by blast
qed


theorem bundle_shape_witness:
  "createDependenceTree pair_fs ''./example/entry.js'' 0 = Some (Inr (pair_graph 0, 2))
   \<and> run_bundle 1 export_modules = Some (Inr (None, [0]))
   \<and> bundle_text (pair_graph 0) = loader_head @ concat (map module_entry (pair_graph 0)) @ loader_tail
   \<and> (\<exists>body. loader_head = body @ ''      require(0);\<newline>    })({'')
   \<and> sorted_wrt (<) (map module_id (pair_graph 0)) \<and> module_id (hd (pair_graph 0)) = 0
   \<and> pair_graph 0 ! 1 \<in> set (pair_graph 0) \<and> dependenceMapping (pair_graph 0 ! 1) \<noteq> None
   \<and> (\<exists>exports. require 1 export_modules (Some 0) [] = Some (Inr (exports, [0])))
   \<and> concat (map module_entry (pair_graph 0)) =
        ''0: [\<newline>'' @
        ''            function(require, module, exports) {\<newline>'' @
        ''                E\<newline>'' @
        ''            },\<newline>'' @
        ''            {'' @ [CHR 0x22] @ ''./a.js'' @ [CHR 0x22] @ '':1}\<newline>'' @
        ''        ],'' @
        ''1: [\<newline>'' @
        ''            function(require, module, exports) {\<newline>'' @
        ''                A\<newline>'' @
        ''            },\<newline>'' @
        ''            {}\<newline>'' @
        ''        ],''"
proof -
  have h: "createDependenceTree pair_fs ''./example/entry.js'' 0 = Some (Inr (pair_graph 0, 2))"
    by code_simp
  have r: "run_bundle 1 export_modules = Some (Inr (None, [0]))"
    by code_simp
  have m: "pair_graph 0 ! 1 \<in> set (pair_graph 0)" by (simp add: pair_graph_def)
  have t: "concat (map module_entry (pair_graph 0)) =
        ''0: [\<newline>'' @
        ''            function(require, module, exports) {\<newline>'' @
        ''                E\<newline>'' @
        ''            },\<newline>'' @
        ''            {'' @ [CHR 0x22] @ ''./a.js'' @ [CHR 0x22] @ '':1}\<newline>'' @
        ''        ],'' @
        ''1: [\<newline>'' @
        ''            function(require, module, exports) {\<newline>'' @
        ''                A\<newline>'' @
        ''            },\<newline>'' @
        ''            {}\<newline>'' @
        ''        ],''"
    by code_simp
  note b = bundle_shape[of "pair_graph 0" pair_fs "''./example/entry.js''" 0 2 1 export_modules None "[0]"]
  from b h r m t show ?thesis by blast
qed

text \<open>
  C7 as stated fails in its last part: \<^verbatim>\<open>require(0)\<close> returns the exports of module 0, and
  the value of the text is \<^verbatim>\<open>undefined\<close>.
\<close>

theorem bundle_value_discarded_counterexample:
  "require 1 export_modules (Some 0) [] = Some (Inr ([(''answer'', ''42'')], [0]))
   \<and> run_bundle 1 export_modules = Some (Inr (None, [0]))"
  by code_simp




text \<open>
  C2 (amended).  With a cyclic import chain the construction of the graph does not
  end: nothing remembers the paths that were seen, so the files on the cycle are made
  into new module objects again and again and the list never runs out.  In general,
  when a file that can be reached from the entry imports itself through a chain of
  imports, \<^verbatim>\<open>createDependenceTree\<close> returns no list; it runs forever unless a file that
  can be reached fails to compile.  No text is printed, so no \<^verbatim>\<open>require(0)\<close> is ever run.
\<close>

theorem cyclic_imports_never_return:
  assumes "rtranclp (import_edge fs) entry p" and "tranclp (import_edge fs) p p"
  shows "createDependenceTree fs entry n \<noteq> Some (Inr g)
         \<and> ((\<forall>q. rtranclp (import_edge fs) entry q \<longrightarrow> compiles fs q) \<longrightarrow>
               createDependenceTree fs entry n = None)
         \<and> (entry = ''./example/entry.js'' \<and> n = 0 \<longrightarrow> main fs \<noteq> Some (Inr text))"
proof -
  note a = cycle_no_graph[OF assms]
  have b: "createDependenceTree fs entry n = None"
    if "\<forall>q. rtranclp (import_edge fs) entry q \<longrightarrow> compiles fs q"
    by (rule cycle_runs_forever[OF assms that])
  have c: "main fs \<noteq> Some (Inr text)" if "entry = ''./example/entry.js'' \<and> n = 0"
    using a[of 0] that by (auto simp: main_def split: option.splits sum.splits)
  from a[of n g] b c show ?thesis by blast
qed

theorem cyclic_imports_never_return_witness:
  "rtranclp (import_edge cycle_fs) ''./example/entry.js'' ''example/a.js''
   \<and> tranclp (import_edge cycle_fs) ''example/a.js'' ''example/a.js''
   \<and> createDependenceTree cycle_fs ''./example/entry.js'' 0 \<noteq> Some (Inr ([], 0))
   \<and> createDependenceTree cycle_fs ''./example/entry.js'' 0 = None
   \<and> main cycle_fs \<noteq> Some (Inr [])"
proof -
  note t = cyclic_imports_never_return[OF cycle_fs_reach cycle_fs_cycle, of 0 "([], 0)" "[]"]
  from t cycle_fs_compiles cycle_fs_reach cycle_fs_cycle show ?thesis by blast
qed

text \<open>
  C2 as stated fails: for the entry that imports \<^verbatim>\<open>a.js\<close>, with \<^verbatim>\<open>a.js\<close> and \<^verbatim>\<open>b.js\<close>
  importing each other, the loop never ends and the script prints nothing.
\<close>

theorem cycle_build_never_ends_counterexample:
  "createDependenceTree cycle_fs ''./example/entry.js'' 0 = None \<and> main cycle_fs = None"
proof -
  have "createDependenceTree cycle_fs ''./example/entry.js'' 0 = None"
    by (rule cycle_runs_forever[OF cycle_fs_reach cycle_fs_cycle cycle_fs_compiles])
  then show ?thesis by (simp add: main_def)
qed

end
